theory Spec2Isabelle
  imports Main "HOL-Library.Sublist" "HOL-Library.Word"
begin

section \<open>Paths, errors and Python values\<close>

text \<open>
  A resolved absolute path is the list of its components below the filesystem root
  (\<open>/a/b\<close> is \<open>[''a'', ''b'']\<close>). The platform is POSIX: the separator is \<open>/\<close> and
  \<open>os.path.normcase\<close> is the identity.
\<close>

type_synonym path = "string list"

datatype error = ValueError | OSError | UnicodeDecodeError | RuntimeError

text \<open>\<open>str\<close> of a relative \<open>Path\<close>: the components joined by \<open>/\<close>, and \<open>.\<close> for the empty path.\<close>

fun join_sep :: "path \<Rightarrow> string" where
  "join_sep [] = []"
| "join_sep [c] = c"
| "join_sep (c # d # cs) = c @ ''/'' @ join_sep (d # cs)"

definition str_path :: "path \<Rightarrow> string" where
  "str_path p = (if p = [] then ''.'' else join_sep p)"

text \<open>\<open>PurePath.relative_to\<close>: raises \<open>ValueError\<close> unless the other path is a prefix.\<close>

fun relative_to :: "path \<Rightarrow> path \<Rightarrow> error + path" where
  "relative_to p [] = Inr p"
| "relative_to [] (r # rs) = Inl ValueError"
| "relative_to (c # cs) (r # rs) = (if c = r then relative_to cs rs else Inl ValueError)"

text \<open>
  The two kinds of Python object that meet in the file-name filter of \<open>build_context\<close>:
  a \<open>str\<close> (a name yielded by \<open>os.walk\<close>) and a \<open>pathlib.Path\<close>. Objects of different
  types never compare equal: both \<open>__eq__\<close> return \<open>NotImplemented\<close>.
\<close>

datatype pyobj = Str string | PathObj path

fun py_eq :: "pyobj \<Rightarrow> pyobj \<Rightarrow> bool" where
  "py_eq (Str a) (Str b) = (a = b)"
| "py_eq (PathObj a) (PathObj b) = (a = b)"
| "py_eq (Str a) (PathObj b) = False"
| "py_eq (PathObj a) (Str b) = False"

definition py_ne :: "pyobj \<Rightarrow> pyobj \<Rightarrow> bool" where
  "py_ne a b = (\<not> py_eq a b)"

section \<open>The glob primitive \<open>fnmatch.fnmatch\<close>\<close>

text \<open>
  Python's \<open>fnmatch\<close> (version 3.11) translates a pattern into a regular expression and
  matches the whole name against it: \<open>*\<close> matches any run of characters (separators
  included), \<open>?\<close> one character, \<open>[seq]\<close> and \<open>[!seq]\<close> one character in or not in the
  class, an unclosed \<open>[\<close> and every other character itself. The translation of a
  class is followed step by step, since it decides what the class means: the text between
  the brackets is cut into chunks at the hyphens that make ranges, empty ranges are taken
  out, and only then is a leading \<open>!\<close> read as negation.
\<close>

text \<open>
  One character of the class as the regular expression has it: written as it is, or
  behind a backslash.
\<close>

datatype set_tok = Raw char | Esc char

fun tok_char :: "set_tok \<Rightarrow> char" where
  "tok_char (Raw c) = c"
| "tok_char (Esc c) = c"

text \<open>
  The pieces of a translated pattern: \<open>Never\<close> is the expression \<open>(?!)\<close> of a class
  left empty, \<open>Cls negate items\<close> the class \<open>[items]\<close> or \<open>[^items]\<close>.
\<close>

datatype glob_tok = Star | Any | Lit char | Never | Cls bool "set_tok list"

text \<open>
  The scan for the closing bracket, on the text after the \<open>[\<close>: a leading \<open>!\<close> and then
  a leading \<open>]\<close> are stepped over, and the class ends at the next \<open>]\<close>; without one the
  bracket is a literal.
\<close>

definition class_end :: "string \<Rightarrow> nat option" where
  "class_end r =
     (let j0 = (if 0 < length r \<and> r ! 0 = CHR ''!'' then 1 else 0);
          j1 = (if j0 < length r \<and> r ! j0 = CHR '']'' then j0 + 1 else j0);
          j = j1 + length (takeWhile (\<lambda>x. x \<noteq> CHR '']'') (drop j1 r))
      in if length r \<le> j then None else Some j)"

text \<open>\<open>stuff.find('-', k)\<close>, with \<open>None\<close> for \<open>-1\<close>.\<close>

definition find_hyphen :: "string \<Rightarrow> nat \<Rightarrow> nat option" where
  "find_hyphen stuff k =
     (if CHR ''-'' \<in> set (drop k stuff)
      then Some (k + length (takeWhile (\<lambda>x. x \<noteq> CHR ''-'') (drop k stuff)))
      else None)"

text \<open>
  The loop that cuts \<open>stuff\<close> into chunks, and the statements after it: a hyphen found at
  \<open>k\<close> ends a chunk, and the search goes on three places further; a last chunk that is
  empty gives its hyphen back to the chunk before. (The loop is only entered when \<open>stuff\<close>
  holds a hyphen, so that chunk exists.)
\<close>

function split_chunks :: "string \<Rightarrow> nat \<Rightarrow> nat \<Rightarrow> string list \<Rightarrow> string list" where
  "split_chunks stuff i k chunks =
     (case find_hyphen stuff k of
        None \<Rightarrow>
          (let chunk = drop i stuff in
           if chunk \<noteq> [] then chunks @ [chunk]
           else if chunks = [] then []
           else butlast chunks @ [last chunks @ ''-''])
      | Some k' \<Rightarrow> split_chunks stuff (k' + 1) (k' + 3) (chunks @ [take (k' - i) (drop i stuff)]))"
  by pat_completeness auto
termination
proof (relation "measure (\<lambda>(stuff, i, k, chunks). length stuff - k)", goal_cases)
  case 1
  show ?case by simp
next
  case (2 stuff i k chunks k')
  then have "CHR ''-'' \<in> set (drop k stuff)"
    and k': "k' = k + length (takeWhile (\<lambda>x. x \<noteq> CHR ''-'') (drop k stuff))"
    by (auto simp: find_hyphen_def split: if_splits)
  then have "takeWhile (\<lambda>x. x \<noteq> CHR ''-'') (drop k stuff) \<noteq> drop k stuff"
    by (simp add: takeWhile_eq_all_conv)
  then have "length (takeWhile (\<lambda>x. x \<noteq> CHR ''-'') (drop k stuff)) \<noteq> length (drop k stuff)"
    by (metis takeWhile_eq_take take_all order_refl)
  with length_takeWhile_le [of "\<lambda>x. x \<noteq> CHR ''-''" "drop k stuff"]
  have "length (takeWhile (\<lambda>x. x \<noteq> CHR ''-'') (drop k stuff)) < length (drop k stuff)"
    by linarith
  with k' show ?case by simp
qed

text \<open>
  The loop \<open>for k in range(len(chunks)-1, 0, -1)\<close>: from the right, a chunk whose last
  character is above the first character of the next one loses that character, the next
  chunk loses its first, and the two are joined. (The chunks compared are never empty.)
\<close>

fun remove_empty_ranges :: "string list \<Rightarrow> string list" where
  "remove_empty_ranges [] = []"
| "remove_empty_ranges [c] = [c]"
| "remove_empty_ranges (c # d # rest) =
     (case remove_empty_ranges (d # rest) of
        [] \<Rightarrow> [c]
      | d' # rest' \<Rightarrow>
          if c \<noteq> [] \<and> d' \<noteq> [] \<and> (of_char (hd d') :: nat) < of_char (last c)
          then (butlast c @ tl d') # rest'
          else c # d' # rest')"

text \<open>Inside a chunk backslashes and hyphens are escaped; the chunks are joined by hyphens.\<close>

definition escape_chunk :: "string \<Rightarrow> set_tok list" where
  "escape_chunk s = map (\<lambda>c. if c = CHR 0x5C \<or> c = CHR ''-'' then Esc c else Raw c) s"

fun join_chunks :: "set_tok list list \<Rightarrow> set_tok list" where
  "join_chunks [] = []"
| "join_chunks [c] = c"
| "join_chunks (c # d # cs) = c @ [Raw CHR ''-''] @ join_chunks (d # cs)"

definition escape_set_ops :: "set_tok list \<Rightarrow> set_tok list" where
  "escape_set_ops ts =
     map (\<lambda>t. if t = Raw CHR ''&'' \<or> t = Raw CHR ''~'' \<or> t = Raw CHR ''|''
              then Esc (tok_char t) else t) ts"

definition class_stuff :: "string \<Rightarrow> set_tok list" where
  "class_stuff stuff =
     escape_set_ops
       (if CHR ''-'' \<notin> set stuff
        then map (\<lambda>c. if c = CHR 0x5C then Esc c else Raw c) stuff
        else join_chunks (map escape_chunk (remove_empty_ranges
               (split_chunks stuff 0 (if stuff \<noteq> [] \<and> hd stuff = CHR ''!'' then 2 else 1) []))))"

definition class_tok :: "string \<Rightarrow> glob_tok" where
  "class_tok stuff =
     (let s = class_stuff stuff in
      if s = [] then Never
      else if s = [Raw CHR ''!''] then Any
      else if hd s = Raw CHR ''!'' then Cls True (tl s)
      else if hd s = Raw CHR ''^'' \<or> hd s = Raw CHR ''[''
        then Cls False (Esc (tok_char (hd s)) # tl s)
      else Cls False s)"

function translate :: "string \<Rightarrow> glob_tok list" where
  "translate [] = []"
| "translate (c # r) =
     (if c = CHR ''*'' then Star # translate r
      else if c = CHR ''?'' then Any # translate r
      else if c = CHR ''['' then
        (case class_end r of
           None \<Rightarrow> Lit CHR ''['' # translate r
         | Some j \<Rightarrow> class_tok (take j r) # translate (drop (Suc j) r))
      else Lit c # translate r)"
  by pat_completeness auto
termination
  by (relation "measure length") auto

text \<open>
  Membership in a class as the regular expression parser reads it, item by item: a
  character, or a range when an unescaped hyphen and another character follow. The flag
  says whether an item has been read already; an unescaped \<open>]\<close> is an item only as the
  first one. (The translation leaves no range with its bounds in the wrong order, for
  which the parser would raise an error.)
\<close>

fun set_match :: "bool \<Rightarrow> set_tok list \<Rightarrow> char \<Rightarrow> bool" where
  "set_match started [] c = False"
| "set_match started [this] c = (\<not> (this = Raw CHR '']'' \<and> started) \<and> c = tok_char this)"
| "set_match started [this, next] c =
     (\<not> (this = Raw CHR '']'' \<and> started) \<and>
      (if next = Raw CHR ''-'' then c = tok_char this \<or> c = CHR ''-''
       else c = tok_char this \<or> set_match True [next] c))"
| "set_match started (this # next # that # rest) c =
     (\<not> (this = Raw CHR '']'' \<and> started) \<and>
      (if next = Raw CHR ''-'' then
         (if that = Raw CHR '']'' then c = tok_char this \<or> c = CHR ''-''
          else ((of_char (tok_char this) :: nat) \<le> of_char c \<and>
                (of_char c :: nat) \<le> of_char (tok_char that)) \<or> set_match True rest c)
       else c = tok_char this \<or> set_match True (next # that # rest) c))"

text \<open>
  Matching a name against the pieces. The regular expression of \<open>fnmatch\<close> is written
  so as not to backtrack; it accepts the same names.
\<close>

fun glob_match :: "glob_tok list \<Rightarrow> string \<Rightarrow> bool" where
  "glob_match [] s = (s = [])"
| "glob_match (Star # ts) [] = glob_match ts []"
| "glob_match (Star # ts) (c # s) = (glob_match ts (c # s) \<or> glob_match (Star # ts) s)"
| "glob_match (Any # ts) [] = False"
| "glob_match (Any # ts) (c # s) = glob_match ts s"
| "glob_match (Lit a # ts) [] = False"
| "glob_match (Lit a # ts) (c # s) = (c = a \<and> glob_match ts s)"
| "glob_match (Never # ts) s = False"
| "glob_match (Cls negate items # ts) [] = False"
| "glob_match (Cls negate items # ts) (c # s) =
     ((set_match False items c \<noteq> negate) \<and> glob_match ts s)"

definition fnmatch :: "string \<Rightarrow> string \<Rightarrow> bool" where
  "fnmatch name pat = glob_match (translate pat) name"

section \<open>The pattern matcher\<close>

definition startswith_bang :: "string \<Rightarrow> bool" where
  "startswith_bang p = (p \<noteq> [] \<and> hd p = CHR ''!'')"

definition endswith_slash :: "string \<Rightarrow> bool" where
  "endswith_slash p = (p \<noteq> [] \<and> last p = CHR ''/'')"

subsection \<open>Loading the ignore file\<close>

text \<open>The characters that \<open>str.strip()\<close> removes, among the 8-bit characters.\<close>

definition is_space :: "char \<Rightarrow> bool" where
  "is_space c = ((of_char c :: nat) \<in> {9, 10, 11, 12, 13, 28, 29, 30, 31, 32, 133, 160})"

definition strip :: "string \<Rightarrow> string" where
  "strip s = rev (dropWhile is_space (rev (dropWhile is_space s)))"

text \<open>
  \<open>_load_ignore_patterns\<close>, the same in both classes. The argument is \<open>None\<close> when the
  ignore file does not exist and the lines of the file otherwise.
\<close>

fun load_lines :: "string list \<Rightarrow> string list \<Rightarrow> string list" where
  "load_lines patterns [] = patterns"
| "load_lines patterns (line # rest) =
     (let line' = strip line in
      if line' \<noteq> [] \<and> \<not> (hd line' = CHR ''#'')
      then load_lines (patterns @ [line']) rest
      else load_lines patterns rest)"

definition load_ignore_patterns :: "string list option \<Rightarrow> string list" where
  "load_ignore_patterns file =
     (case file of None \<Rightarrow> [] | Some lines \<Rightarrow> load_lines [] lines)"

subsection \<open>The simpler variant: \<open>ContextBuilder\<close>\<close>

record matcher =
  root_dir :: path
  ignore_file :: path
  ignore_patterns :: "string list"

definition cb_init :: "path \<Rightarrow> string \<Rightarrow> string list option \<Rightarrow> matcher" where
  "cb_init root name file =
     \<lparr>root_dir = root, ignore_file = root @ [name],
      ignore_patterns = load_ignore_patterns file\<rparr>"

text \<open>
  One turn of the loop of \<open>ContextBuilder._should_ignore\<close>: \<open>Some b\<close> when the body
  returns \<open>b\<close>, \<open>None\<close> when the loop goes on to the next pattern.
\<close>

definition cb_check :: "string \<Rightarrow> string \<Rightarrow> bool option" where
  "cb_check pattern rel_path =
     (if startswith_bang pattern then
        (if fnmatch rel_path (tl pattern) then Some False else None)
      else if endswith_slash pattern then
        (if fnmatch (rel_path @ ''/'') pattern then Some True else None)
      else if fnmatch rel_path pattern then Some True
      else None)"

fun cb_loop :: "string list \<Rightarrow> string \<Rightarrow> bool" where
  "cb_loop [] rel_path = False"
| "cb_loop (pattern # rest) rel_path =
     (case cb_check pattern rel_path of
        Some b \<Rightarrow> b
      | None \<Rightarrow> cb_loop rest rel_path)"

definition cb_should_ignore :: "matcher \<Rightarrow> path \<Rightarrow> error + bool" where
  "cb_should_ignore self p =
     (case relative_to p (root_dir self) of
        Inl e \<Rightarrow> Inl e
      | Inr rel \<Rightarrow> Inr (cb_loop (ignore_patterns self) (str_path rel)))"

subsection \<open>The richer variant: \<open>Contextro\<close>\<close>

definition builtin_pattern :: string where
  "builtin_pattern = ''contextro_context_*.txt''"

definition init :: "path \<Rightarrow> string \<Rightarrow> string list option \<Rightarrow> matcher" where
  "init root name file =
     \<lparr>root_dir = root, ignore_file = root @ [name],
      ignore_patterns = load_ignore_patterns file @ [builtin_pattern]\<rparr>"

definition pattern_variations :: "string \<Rightarrow> string list" where
  "pattern_variations pattern =
     [pattern, ''**/'' @ pattern, ''**/'' @ pattern @ ''/**'']"

text \<open>
  The inner loop of the negation branch. The loop variable \<open>var\<close> runs over the
  variations, and the test in the body is on \<open>clean_pattern\<close>.
\<close>

fun neg_loop :: "string list \<Rightarrow> string \<Rightarrow> string \<Rightarrow> bool option" where
  "neg_loop [] rel_path clean_pattern = None"
| "neg_loop (var # vars) rel_path clean_pattern =
     (if fnmatch rel_path clean_pattern then Some False
      else neg_loop vars rel_path clean_pattern)"

text \<open>The inner loop of the other branch.\<close>

fun pos_loop :: "string list \<Rightarrow> string \<Rightarrow> string \<Rightarrow> string \<Rightarrow> bool option" where
  "pos_loop [] pattern rel_path rel_path_with_slash = None"
| "pos_loop (var # vars) pattern rel_path rel_path_with_slash =
     (if endswith_slash pattern then
        (if fnmatch rel_path_with_slash var then Some True
         else pos_loop vars pattern rel_path rel_path_with_slash)
      else if fnmatch rel_path var then Some True
      else pos_loop vars pattern rel_path rel_path_with_slash)"

definition check :: "string \<Rightarrow> string \<Rightarrow> string \<Rightarrow> bool option" where
  "check pattern rel_path rel_path_with_slash =
     (if startswith_bang pattern
      then neg_loop (pattern_variations pattern) rel_path (tl pattern)
      else pos_loop (pattern_variations pattern) pattern rel_path rel_path_with_slash)"

fun loop :: "string list \<Rightarrow> string \<Rightarrow> string \<Rightarrow> bool" where
  "loop [] rel_path rel_path_with_slash = False"
| "loop (pattern # rest) rel_path rel_path_with_slash =
     (case check pattern rel_path rel_path_with_slash of
        Some b \<Rightarrow> b
      | None \<Rightarrow> loop rest rel_path rel_path_with_slash)"

text \<open>
  \<open>Contextro._should_ignore\<close>. The argument \<open>isdir\<close> is the answer of
  \<open>os.path.isdir(path)\<close>.
\<close>

definition should_ignore :: "matcher \<Rightarrow> path \<Rightarrow> bool \<Rightarrow> error + bool" where
  "should_ignore self p isdir =
     (case relative_to p (root_dir self) of
        Inl e \<Rightarrow> Inl e
      | Inr rel \<Rightarrow>
          (let rel_path = str_path rel;
               rel_path_with_slash = (if isdir then rel_path @ ''/'' else rel_path)
           in Inr (loop (ignore_patterns self) rel_path rel_path_with_slash)))"

section \<open>The tree concatenator\<close>

subsection \<open>The filesystem seen by the walk\<close>

text \<open>
  What the run can observe of a file: \<open>raw\<close> is the outcome of opening it in binary
  mode and reading it, \<open>as_text\<close> the outcome of opening it as UTF-8 text and reading it.
\<close>

type_synonym byte = "8 word"

record file_data =
  raw :: "error + byte list"
  as_text :: "error + string"

text \<open>
  What the run can observe of a symbolic link: \<open>resolved\<close> is the outcome of
  \<open>Path.resolve()\<close> on it (its target, anywhere in the filesystem, or \<open>RuntimeError\<close> for
  a loop of links), \<open>to_dir\<close> says whether it leads to a directory, and \<open>target\<close> is what
  opening it gives.
\<close>

record link_data =
  resolved :: "error + path"
  to_dir :: bool
  target :: file_data

text \<open>
  A directory lists its entries in the order in which \<open>os.walk\<close> reports them. The
  directories that the walk goes into are not links, so the path of an entry that is not a
  link is its resolved path.
\<close>

datatype node = File string file_data | Dir string "node list" | Link string link_data

fun entry_name :: "node \<Rightarrow> string" where
  "entry_name (File n f) = n"
| "entry_name (Dir n es) = n"
| "entry_name (Link n l) = n"

text \<open>\<open>os.path.isdir\<close> and \<open>DirEntry.is_dir()\<close>, which follow links.\<close>

fun entry_is_dir :: "node \<Rightarrow> bool" where
  "entry_is_dir (File n f) = False"
| "entry_is_dir (Dir n es) = True"
| "entry_is_dir (Link n l) = to_dir l"

fun entry_islink :: "node \<Rightarrow> bool" where
  "entry_islink (File n f) = False"
| "entry_islink (Dir n es) = False"
| "entry_islink (Link n l) = True"

fun entry_children :: "node \<Rightarrow> node list" where
  "entry_children (File n f) = []"
| "entry_children (Dir n es) = es"
| "entry_children (Link n l) = []"

text \<open>What opening the entry gives; a directory cannot be opened as a file.\<close>

fun entry_data :: "node \<Rightarrow> file_data" where
  "entry_data (File n f) = f"
| "entry_data (Dir n es) = \<lparr>raw = Inl OSError, as_text = Inl OSError\<rparr>"
| "entry_data (Link n l) = target l"

text \<open>\<open>Path(path).resolve()\<close> for the entry found at \<open>path\<close>.\<close>

fun resolve :: "path \<Rightarrow> node \<Rightarrow> error + path" where
  "resolve p (File n f) = Inr p"
| "resolve p (Dir n es) = Inr p"
| "resolve p (Link n l) = resolved l"

text \<open>
  The lists \<open>files\<close> and \<open>dirs\<close> that \<open>os.walk\<close> yields for a directory: a link to a
  directory is among \<open>dirs\<close>, every other link among \<open>files\<close>.
\<close>

definition files_of :: "node list \<Rightarrow> (string \<times> node) list" where
  "files_of es = [(entry_name e, e). e \<leftarrow> es, \<not> entry_is_dir e]"

definition dirs_of :: "node list \<Rightarrow> (string \<times> node) list" where
  "dirs_of es = [(entry_name e, e). e \<leftarrow> es, entry_is_dir e]"

text \<open>\<open>os.path.relpath\<close> on two absolute paths.\<close>

definition relpath :: "path \<Rightarrow> path \<Rightarrow> path" where
  "relpath p start =
     (let i = length (longest_common_prefix start p)
      in replicate (length start - i) ''..'' @ drop i p)"

text \<open>
  The call \<open>self._should_ignore(path)\<close> for an entry of the walk: the path is resolved,
  which may raise, and made relative to the root, which raises when a link leads out of it.
\<close>

definition should_ignore_at :: "matcher \<Rightarrow> path \<Rightarrow> node \<Rightarrow> error + bool" where
  "should_ignore_at self p e =
     (case resolve p e of
        Inl err \<Rightarrow> Inl err
      | Inr real \<Rightarrow> should_ignore self real (entry_is_dir e))"

subsection \<open>Binary detection\<close>

definition is_binary :: "file_data \<Rightarrow> bool" where
  "is_binary f =
     (case raw f of
        Inl e \<Rightarrow> True
      | Inr bytes \<Rightarrow> (let chunk = take 1024 bytes in 0 \<in> set chunk))"

subsection \<open>The run\<close>

text \<open>
  The effects of a run: the calls of \<open>out.write\<close> in order, and the lines printed. A
  separator is kept with the relative path it labels; \<open>render\<close> gives the text written.
\<close>

datatype written = Separator path | Contents string

datatype message = Error_processing path error | Context_file_created path

record run =
  out :: "written list"
  console :: "message list"

definition render :: "written \<Rightarrow> string" where
  "render w =
     (case w of
        Separator rel_path \<Rightarrow>
          [CHR 0x0A] @ replicate 7 CHR ''='' @ str_path rel_path @ replicate 7 CHR ''='' @ [CHR 0x0A]
      | Contents s \<Rightarrow> s)"

definition artifact :: "run \<Rightarrow> string" where
  "artifact st = concat (map render (out st))"

text \<open>
  The condition of the comprehension that filters the file names of one directory,
  the same in both classes: \<open>f != output_file and f != '.contextignore'\<close>, with \<open>f\<close> a
  \<open>str\<close> and \<open>output_file\<close> a \<open>Path\<close>.
\<close>

definition keep_file :: "path \<Rightarrow> string \<Rightarrow> bool" where
  "keep_file output_file f =
     (py_ne (Str f) (PathObj output_file) \<and> f \<noteq> ''.contextignore'')"

definition keep_files :: "path \<Rightarrow> (string \<times> 'a) list \<Rightarrow> (string \<times> 'a) list" where
  "keep_files output_file files = [f \<leftarrow> files. keep_file output_file (fst f)]"

text \<open>
  The in-place filter of the subdirectories. The matcher is called outside any \<open>try\<close>: an
  error it raises ends the run.
\<close>

fun prune :: "matcher \<Rightarrow> path \<Rightarrow> (string \<times> node) list \<Rightarrow> error + (string \<times> node) list" where
  "prune self root [] = Inr []"
| "prune self root (d # dirs) =
     (case should_ignore_at self (root @ [fst d]) (snd d) of
        Inl e \<Rightarrow> Inl e
      | Inr ignored \<Rightarrow>
          (case prune self root dirs of
             Inl e \<Rightarrow> Inl e
           | Inr kept \<Rightarrow> Inr (if ignored then kept else d # kept)))"

text \<open>
  The body of \<open>for file in files\<close>. The call of the matcher is outside the \<open>try\<close>: its
  error ends the run, with the output as written so far. Inside the \<open>try\<close> the separator
  is written before the file is opened as text.
\<close>

definition process_file :: "matcher \<Rightarrow> path \<Rightarrow> string \<times> node \<Rightarrow> run \<Rightarrow> error \<times> run + run" where
  "process_file self root f st =
     (let file_path = root @ [fst f] in
      case should_ignore_at self file_path (snd f) of
        Inl e \<Rightarrow> Inl (e, st)
      | Inr ignored \<Rightarrow>
          if ignored then Inr st
          else if is_binary (entry_data (snd f)) then Inr st
          else
            (let rel_path = relpath file_path (root_dir self);
                 st1 = st\<lparr>out := out st @ [Separator rel_path]\<rparr>
             in case as_text (entry_data (snd f)) of
                  Inl e \<Rightarrow> Inr (st1\<lparr>console := console st1 @ [Error_processing file_path e]\<rparr>)
                | Inr s \<Rightarrow> Inr (st1\<lparr>out := out st1 @ [Contents s]\<rparr>)))"

fun process_files :: "matcher \<Rightarrow> path \<Rightarrow> (string \<times> node) list \<Rightarrow> run \<Rightarrow> error \<times> run + run" where
  "process_files self root [] st = Inr st"
| "process_files self root (f # files) st =
     (case process_file self root f st of
        Inl x \<Rightarrow> Inl x
      | Inr st' \<Rightarrow> process_files self root files st')"

definition dirs_size :: "(string \<times> node) list \<Rightarrow> nat" where
  "dirs_size dirs = sum_list (map (\<lambda>d. Suc (size (snd d))) dirs)"

text \<open>
  \<open>os.walk\<close>, top-down, with the loop body of \<open>build_context\<close>: at each directory the
  files are filtered, the subdirectories pruned, the files processed, and then the walk
  goes down into the subdirectories that are left and are not links. The result is the
  state of the run at its end, or the error that ended it with the state reached.
\<close>

function walk :: "matcher \<Rightarrow> path \<Rightarrow> path \<Rightarrow> node list \<Rightarrow> run \<Rightarrow> error \<times> run + run"
  and descend :: "matcher \<Rightarrow> path \<Rightarrow> path \<Rightarrow> (string \<times> node) list \<Rightarrow> run \<Rightarrow> error \<times> run + run"
where
  "walk self output_file root es st =
     (let files = keep_files output_file (files_of es) in
      case prune self root (dirs_of es) of
        Inl e \<Rightarrow> Inl (e, st)
      | Inr dirs \<Rightarrow>
          (case process_files self root files st of
             Inl x \<Rightarrow> Inl x
           | Inr st' \<Rightarrow> descend self output_file root dirs st'))"
| "descend self output_file root [] st = Inr st"
| "descend self output_file root (d # dirs) st =
     (if entry_islink (snd d) then descend self output_file root dirs st
      else
        (case walk self output_file (root @ [fst d]) (entry_children (snd d)) st of
           Inl x \<Rightarrow> Inl x
         | Inr st' \<Rightarrow> descend self output_file root dirs st'))"
  by pat_completeness auto
termination
proof -
  have prune_size: "dirs_size kept \<le> dirs_size dirs"
    if "prune self root dirs = Inr kept" for self root dirs kept
    using that
    by (induction dirs arbitrary: kept) (auto simp: dirs_size_def split: sum.splits if_splits)
  have dirs_of_size: "dirs_size (dirs_of es) \<le> size_list size es" for es
    by (induction es) (auto simp: dirs_size_def dirs_of_def)
  have children_size: "size_list size (entry_children e) \<le> size e" for e
    by (cases e) auto
  show ?thesis
  proof (relation "measure (\<lambda>x. case x of
            Inl (self, output_file, root, es, st) \<Rightarrow> 2 * size_list size es + 1
          | Inr (self, output_file, root, dirs, st) \<Rightarrow> 2 * dirs_size dirs)", goal_cases)
    case 1
    show ?case by simp
  next
    case (2 self output_file root es st files dirs st')
    then show ?case
      using prune_size [of self root "dirs_of es" dirs] dirs_of_size [of es] by simp
  next
    case 3
    then show ?case by (simp add: dirs_size_def)
  next
    case (4 self output_file root d dirs st)
    then show ?case
      using children_size [of "snd d"] by (simp add: dirs_size_def)
  next
    case 5
    then show ?case by (simp add: dirs_size_def)
  qed
qed

definition output_name :: "string \<Rightarrow> string" where
  "output_name timestamp = ''contextro_context_'' @ timestamp @ ''.txt''"

text \<open>
  \<open>Contextro.build_context\<close> from the point where the output file is open: \<open>tree\<close> is
  the content of the root directory as the walk finds it. An error that ends the walk
  leaves the output file with what was written before.
\<close>

definition build_context :: "matcher \<Rightarrow> string \<Rightarrow> node list \<Rightarrow> error \<times> run + path \<times> run" where
  "build_context self timestamp tree =
     (let output_file = root_dir self @ [output_name timestamp] in
      case walk self output_file (root_dir self) tree \<lparr>out = [], console = []\<rparr> of
        Inl x \<Rightarrow> Inl x
      | Inr st \<Rightarrow> Inr (output_file, st\<lparr>console := console st @ [Context_file_created output_file]\<rparr>))"

text \<open>The state of the run when \<open>build_context\<close> is left, normally or by an error.\<close>

definition output_of :: "error \<times> run + path \<times> run \<Rightarrow> run" where
  "output_of r = (case r of Inl x \<Rightarrow> snd x | Inr y \<Rightarrow> snd y)"

definition state_of :: "error \<times> run + run \<Rightarrow> run" where
  "state_of r = (case r of Inl x \<Rightarrow> snd x | Inr st \<Rightarrow> st)"

text \<open>
  \<open>main\<close>: the exit status and the result of the run. The arguments are the resolved
  directory, the value of \<open>--ignore-file\<close>, the lines of that file when it exists, the
  timestamp and the tree under the directory.
\<close>

definition main :: "path \<Rightarrow> string \<Rightarrow> string list option \<Rightarrow> string \<Rightarrow> node list \<Rightarrow> nat \<times> (path \<times> run) option" where
  "main directory ignore_file_arg file timestamp tree =
     (let builder = init directory ignore_file_arg file in
      case build_context builder timestamp tree of
        Inl x \<Rightarrow> (1, None)
      | Inr r \<Rightarrow> (0, Some r))"

subsection \<open>Reading the result of a run\<close>

text \<open>
  The first pattern of a list whose turn of the loop of \<open>Contextro._should_ignore\<close>
  returns: the pattern that decides.
\<close>

definition deciding_pattern :: "string list \<Rightarrow> string \<Rightarrow> string \<Rightarrow> string option" where
  "deciding_pattern patterns rel_path rel_path_with_slash =
     find (\<lambda>p. check p rel_path rel_path_with_slash \<noteq> None) patterns"

text \<open>
  A separator for \<open>p\<close> was written during the walk below the directory \<open>rel\<close> only if
  \<open>p\<close> lies below \<open>rel\<close> and the matcher kept every directory between the two.
\<close>

definition reached :: "matcher \<Rightarrow> path \<Rightarrow> path \<Rightarrow> bool" where
  "reached self rel p =
     (\<exists>q. q \<noteq> [] \<and> p = rel @ q \<and>
          (\<forall>k. 0 < k \<and> k < length q \<longrightarrow>
               should_ignore self (root_dir self @ rel @ take k q) True = Inr False))"

text \<open>
  What opening the path \<open>p\<close> of the tree as a file can give, and whether there is a file
  at \<open>p\<close> that is not binary. Links are not followed on the way to \<open>p\<close>.
\<close>

fun files_at :: "node list \<Rightarrow> path \<Rightarrow> file_data list" where
  "files_at [] p = []"
| "files_at (File n f # es) p = (if p = [n] then [f] else []) @ files_at es p"
| "files_at (Link n l # es) p = (if p = [n] \<and> \<not> to_dir l then [target l] else []) @ files_at es p"
| "files_at (Dir n cs # es) p =
     (case p of [] \<Rightarrow> [] | m # q \<Rightarrow> if m = n \<and> q \<noteq> [] then files_at cs q else [])
     @ files_at es p"

definition text_file_at :: "node list \<Rightarrow> path \<Rightarrow> bool" where
  "text_file_at es q = (\<exists>f\<in>set (files_at es q). \<not> is_binary f)"

text \<open>
  The end-to-end scenario of the specification: \<open>a.txt\<close> with \<open>hello\<close>, \<open>b.bin\<close> with a
  null byte, \<open>sub/c.txt\<close> with \<open>world\<close>, the ignore file with the line \<open>sub/\<close>, and
  the output file that the run has just created.
\<close>

definition scenario_tree :: "node list" where
  "scenario_tree =
     [File ''a.txt'' \<lparr>raw = Inr [0x68, 0x65, 0x6C, 0x6C, 0x6F], as_text = Inr ''hello''\<rparr>,
      File ''b.bin'' \<lparr>raw = Inr [0x62, 0x00], as_text = Inr [CHR ''b'', CHR 0x00]\<rparr>,
      Dir ''sub'' [File ''c.txt'' \<lparr>raw = Inr [0x77, 0x6F, 0x72, 0x6C, 0x64], as_text = Inr ''world''\<rparr>],
      File ''.contextignore'' \<lparr>raw = Inr [0x73, 0x75, 0x62, 0x2F], as_text = Inr ''sub/''\<rparr>,
      File ''contextro_context_20240101_000000.txt'' \<lparr>raw = Inr [], as_text = Inr []\<rparr>]"

text \<open>The same tree with a link \<open>foo\<close> that leads to the directory \<open>sub\<close>.\<close>

definition linked_tree :: "node list" where
  "linked_tree =
     Link ''foo'' \<lparr>resolved = Inr [''r'', ''sub''], to_dir = True,
                  target = \<lparr>raw = Inl OSError, as_text = Inl OSError\<rparr>\<rparr>
     # scenario_tree"

section \<open>Facts about paths and the matcher\<close>


lemma relative_to_append: "relative_to (r @ p) r = Inr p"
  by (induction r) auto

lemma relative_to_outside: "\<not> prefix r p \<Longrightarrow> relative_to p r = Inl ValueError"
  by (induction p r rule: relative_to.induct) auto

lemma should_ignore_under_root:
  "should_ignore self (root_dir self @ rel) isdir =
     Inr (loop (ignore_patterns self) (str_path rel)
            (if isdir then str_path rel @ ''/'' else str_path rel))"
  by (simp add: should_ignore_def relative_to_append Let_def)

lemma cb_should_ignore_under_root:
  "cb_should_ignore self (root_dir self @ rel) =
     Inr (cb_loop (ignore_patterns self) (str_path rel))"
  by (simp add: cb_should_ignore_def relative_to_append)

lemma loop_first_hit:
  "\<forall>q\<in>set pre. check q rel rws = None \<Longrightarrow> check p rel rws = Some b \<Longrightarrow>
   loop (pre @ p # post) rel rws = b"
  by (induction pre) auto

lemma neg_loop_result: "neg_loop vars rel clean = Some b \<Longrightarrow> \<not> b \<and> fnmatch rel clean"
  by (induction vars) (auto split: if_splits)

lemma pos_loop_result: "pos_loop vars p rel rws = Some b \<Longrightarrow> b"
  by (induction vars) (auto split: if_splits)

lemma check_result: "check p rel rws = Some b \<Longrightarrow> b = (\<not> startswith_bang p)"
  by (auto simp: check_def split: if_splits dest: neg_loop_result pos_loop_result)

lemma check_keep: "check p rel rws = Some False \<Longrightarrow> startswith_bang p \<and> fnmatch rel (tl p)"
  by (auto simp: check_def split: if_splits dest: neg_loop_result pos_loop_result)


lemma glob_star_skip: "glob_match ts s \<Longrightarrow> glob_match (Star # ts) (x @ s)"
proof (induction x)
  case Nil
  then show ?case by (cases s) auto
next
  case (Cons a x)
  then show ?case by simp
qed

lemma translate_any_dir: "translate (''**/'' @ p) = Star # Star # Lit CHR ''/'' # translate p"
  by simp

lemma fnmatch_any_dir: "fnmatch n p \<Longrightarrow> fnmatch (d @ ''/'' @ n) (''**/'' @ p)"
proof -
  assume "fnmatch n p"
  then have "glob_match (Star # Lit CHR ''/'' # translate p) (''/'' @ n)"
    by (simp add: fnmatch_def)
  then have "glob_match (Star # Star # Lit CHR ''/'' # translate p) (d @ ''/'' @ n)"
    by (rule glob_star_skip)
  then show ?thesis
    unfolding fnmatch_def translate_any_dir .
qed

lemma join_sep_snoc: "pre \<noteq> [] \<Longrightarrow> join_sep (pre @ [n]) = join_sep pre @ ''/'' @ n"
  by (induction pre rule: join_sep.induct) auto

lemma str_path_snoc:
  "str_path (pre @ [n]) = (if pre = [] then n else str_path pre @ ''/'' @ n)"
  by (simp add: str_path_def join_sep_snoc)

lemma fnmatch_name_in_dir:
  assumes "fnmatch n p"
  shows "fnmatch (str_path (pre @ [n])) p \<or> fnmatch (str_path (pre @ [n])) (''**/'' @ p)"
proof (cases "pre = []")
  case True
  with assms show ?thesis by (simp add: str_path_def)
next
  case False
  then have "str_path (pre @ [n]) = str_path pre @ ''/'' @ n"
    by (simp add: str_path_snoc)
  with fnmatch_any_dir [OF assms, of "str_path pre"] show ?thesis by simp
qed



lemma cb_check_keep: "cb_check p rel = Some False \<longleftrightarrow> startswith_bang p \<and> fnmatch rel (tl p)"
  by (auto simp: cb_check_def)

lemma cb_check_ignore:
  "cb_check p rel = Some True \<Longrightarrow>
   \<not> startswith_bang p \<and> (if endswith_slash p then fnmatch (rel @ ''/'') p else fnmatch rel p)"
  by (auto simp: cb_check_def split: if_splits)

lemma check_of_cb_ignore:
  assumes "cb_check p rel = Some True" and "isdir \<or> startswith_bang p \<or> \<not> endswith_slash p"
  shows "check p rel (if isdir then rel @ ''/'' else rel) = Some True"
  using cb_check_ignore [OF assms(1)] assms(2)
  by (auto simp: check_def pattern_variations_def)

lemma check_of_cb_none:
  assumes "cb_check p rel = None"
  shows "check p rel rws \<noteq> Some False"
  using assms check_keep [of p rel rws] by (auto simp: cb_check_def split: if_splits)

lemma cb_loop_first_hit:
  "\<forall>q\<in>set pre. cb_check q rel = None \<Longrightarrow> cb_check p rel = Some b \<Longrightarrow>
   cb_loop (pre @ p # post) rel = b"
  by (induction pre) auto

lemma check_neg_of_cb: "startswith_bang q \<Longrightarrow> check q rel rws = cb_check q rel"
  by (simp add: check_def cb_check_def pattern_variations_def)

lemma loop_deciding:
  "loop ps rel rws =
     (case deciding_pattern ps rel rws of None \<Rightarrow> False | Some p \<Rightarrow> \<not> startswith_bang p)"
proof (induction ps)
  case Nil
  show ?case by (simp add: deciding_pattern_def)
next
  case (Cons p ps)
  show ?case
  proof (cases "check p rel rws")
    case None
    with Cons show ?thesis by (simp add: deciding_pattern_def)
  next
    case (Some b)
    with check_result [of p rel rws b] show ?thesis by (simp add: deciding_pattern_def)
  qed
qed


lemma deciding_exists:
  "p \<in> set ps \<Longrightarrow> check p rel rws \<noteq> None \<Longrightarrow> deciding_pattern ps rel rws \<noteq> None"
  by (auto simp: deciding_pattern_def find_None_iff)

lemma loop_ignore_after:
  "\<forall>q\<in>set pre. check q rel rws \<noteq> Some False \<Longrightarrow> check p rel rws = Some True \<Longrightarrow>
   loop (pre @ p # rest) rel rws"
proof (induction pre)
  case Nil
  then show ?case by simp
next
  case (Cons q pre)
  then show ?case by (cases "check q rel rws") auto
qed

lemma loop_keep_only_first:
  "\<forall>q\<in>set pre. check q rel rws \<noteq> Some False \<Longrightarrow> \<not> loop (pre @ rest) rel rws \<Longrightarrow>
   \<forall>q\<in>set pre. check q rel rws = None"
proof (induction pre)
  case Nil
  then show ?case by simp
next
  case (Cons q pre)
  then show ?case by (cases "check q rel rws") auto
qed

section \<open>Facts about the walk\<close>

lemma relpath_under: "relpath (r @ p) r = p"
proof -
  have "longest_common_prefix r (r @ p) = r"
    by (induction r) auto
  then show ?thesis by (simp add: relpath_def)
qed

lemma resolve_no_link: "\<not> entry_islink e \<Longrightarrow> resolve p e = Inr p"
  by (cases e) auto

lemma dirs_of_is_dir: "d \<in> set (dirs_of es) \<Longrightarrow> entry_is_dir (snd d) \<and> snd d \<in> set es"
  by (auto simp: dirs_of_def)

lemma reached_file: "reached self rel (rel @ [n])"
  by (auto simp: reached_def)

lemma reached_step:
  assumes "reached self (rel @ [n]) p"
    and "should_ignore self (root_dir self @ rel @ [n]) True = Inr False"
  shows "reached self rel p"
proof -
  from assms(1) obtain q where q: "q \<noteq> []" "p = (rel @ [n]) @ q"
    and op: "\<forall>k. 0 < k \<and> k < length q \<longrightarrow>
               should_ignore self (root_dir self @ (rel @ [n]) @ take k q) True = Inr False"
    by (auto simp: reached_def)
  have "should_ignore self (root_dir self @ rel @ take k (n # q)) True = Inr False"
    if "0 < k" "k < length (n # q)" for k
  proof (cases k)
    case 0
    with that show ?thesis by simp
  next
    case (Suc j)
    show ?thesis
    proof (cases j)
      case 0
      with Suc assms(2) show ?thesis by simp
    next
      case (Suc i)
      with \<open>k = Suc j\<close> that op show ?thesis by simp
    qed
  qed
  with q show ?thesis
    unfolding reached_def by (intro exI [of _ "n # q"]) simp
qed

lemma process_file_out:
  assumes "Separator p \<in> set (out (state_of (process_file self (root_dir self @ rel) f st)))"
  shows "Separator p \<in> set (out st) \<or>
         (p = rel @ [fst f] \<and> \<not> is_binary (entry_data (snd f)))"
  using assms relpath_under [of "root_dir self" "rel @ [fst f]"]
  by (auto simp: process_file_def state_of_def Let_def split: sum.splits if_splits)

lemma process_files_out:
  assumes "Separator p \<in> set (out (state_of (process_files self (root_dir self @ rel) files st)))"
  shows "Separator p \<in> set (out st) \<or>
         (\<exists>f\<in>set files. p = rel @ [fst f] \<and> \<not> is_binary (entry_data (snd f)))"
  using assms
proof (induction files arbitrary: st)
  case Nil
  then show ?case by (simp add: state_of_def)
next
  case (Cons f files)
  show ?case
  proof (cases "process_file self (root_dir self @ rel) f st")
    case (Inl x)
    with Cons.prems have "Separator p \<in> set (out (state_of (process_file self (root_dir self @ rel) f st)))"
      by (simp add: state_of_def)
    from process_file_out [OF this] show ?thesis by auto
  next
    case (Inr st1)
    with Cons.prems have "Separator p \<in> set (out (state_of (process_files self (root_dir self @ rel) files st1)))"
      by simp
    from Cons.IH [OF this] consider "Separator p \<in> set (out st1)"
      | "\<exists>f\<in>set files. p = rel @ [fst f] \<and> \<not> is_binary (entry_data (snd f))"
      by blast
    then show ?thesis
    proof cases
      case 1
      with Inr have "Separator p \<in> set (out (state_of (process_file self (root_dir self @ rel) f st)))"
        by (simp add: state_of_def)
      from process_file_out [OF this] show ?thesis by auto
    next
      case 2
      then show ?thesis by auto
    qed
  qed
qed

lemma prune_subset: "prune self root dirs = Inr kept \<Longrightarrow> set kept \<subseteq> set dirs"
  by (induction dirs arbitrary: kept) (auto split: sum.splits if_splits)

lemma prune_kept:
  "prune self root dirs = Inr kept \<Longrightarrow> d \<in> set kept \<Longrightarrow>
   should_ignore_at self (root @ [fst d]) (snd d) = Inr False"
  by (induction dirs arbitrary: kept) (auto split: sum.splits if_splits)

lemma kept_directory:
  assumes "prune self root (dirs_of es) = Inr kept" and "d \<in> set kept"
    and "\<not> entry_islink (snd d)"
  shows "should_ignore self (root @ [fst d]) True = Inr False"
proof -
  from assms(1,2) prune_subset have "d \<in> set (dirs_of es)" by blast
  then have "entry_is_dir (snd d)" by (simp add: dirs_of_is_dir)
  with prune_kept [OF assms(1,2)] resolve_no_link [OF assms(3)]
  show ?thesis by (simp add: should_ignore_at_def)
qed

lemma walk_out:
  "Separator p \<in> set (out (state_of (walk self outf root es st))) \<Longrightarrow>
   root = root_dir self @ rel \<Longrightarrow>
   Separator p \<in> set (out st) \<or> reached self rel p"
  and descend_out:
  "Separator p \<in> set (out (state_of (descend self outf root dirs st))) \<Longrightarrow>
   root = root_dir self @ rel \<Longrightarrow>
   \<forall>d\<in>set dirs. \<not> entry_islink (snd d) \<longrightarrow>
      should_ignore self (root @ [fst d]) True = Inr False \<Longrightarrow>
   Separator p \<in> set (out st) \<or> reached self rel p"
proof (induction self outf root es st and self outf root dirs st arbitrary: rel and rel
    rule: walk_descend.induct)
  case (1 self output_file root es st)
  show ?case
  proof (cases "prune self root (dirs_of es)")
    case (Inl e)
    with "1.prems"(1) show ?thesis by (simp add: state_of_def)
  next
    case (Inr kept)
    note k = this
    have files: "Separator p \<in> set (out st) \<or> reached self rel p"
      if "Separator p \<in> set (out (state_of
            (process_files self root (keep_files output_file (files_of es)) st)))"
      using process_files_out [of p self rel _ st] that "1.prems"(2) reached_file by blast
    show ?thesis
    proof (cases "process_files self root (keep_files output_file (files_of es)) st")
      case (Inl x)
      with k "1.prems"(1) files show ?thesis by (simp add: state_of_def)
    next
      case (Inr st1)
      with k "1.prems"(1)
      have d: "Separator p \<in> set (out (state_of (descend self output_file root kept st1)))"
        by simp
      have "\<forall>d\<in>set kept. \<not> entry_islink (snd d) \<longrightarrow>
          should_ignore self (root @ [fst d]) True = Inr False"
        using kept_directory [OF k] by blast
      from "1.IH" [OF refl k Inr d "1.prems"(2) this]
      have "Separator p \<in> set (out st1) \<or> reached self rel p" .
      with files Inr show ?thesis by (auto simp: state_of_def)
    qed
  qed
next
  case (2 self output_file root st)
  then show ?case by (simp add: state_of_def)
next
  case (3 self output_file root d dirs st)
  from "3.prems"(3) have rest: "\<forall>d\<in>set dirs. \<not> entry_islink (snd d) \<longrightarrow>
      should_ignore self (root @ [fst d]) True = Inr False"
    by simp
  show ?case
  proof (cases "entry_islink (snd d)")
    case True
    with "3.prems"(1)
    have "Separator p \<in> set (out (state_of (descend self output_file root dirs st)))" by simp
    from "3.IH"(1) [OF True this "3.prems"(2) rest] show ?thesis .
  next
    case False
    have root': "root @ [fst d] = root_dir self @ (rel @ [fst d])"
      using "3.prems"(2) by simp
    have kept: "should_ignore self (root_dir self @ rel @ [fst d]) True = Inr False"
      using "3.prems"(2,3) False by simp
    have below: "Separator p \<in> set (out st) \<or> reached self rel p"
      if "Separator p \<in> set (out (state_of
            (walk self output_file (root @ [fst d]) (entry_children (snd d)) st)))"
      using "3.IH"(2) [OF False that root'] reached_step [OF _ kept] by blast
    show ?thesis
    proof (cases "walk self output_file (root @ [fst d]) (entry_children (snd d)) st")
      case (Inl x)
      with False "3.prems"(1) below show ?thesis by (simp add: state_of_def)
    next
      case (Inr st1)
      with False "3.prems"(1)
      have "Separator p \<in> set (out (state_of (descend self output_file root dirs st1)))"
        by simp
      from "3.IH"(3) [OF False Inr this "3.prems"(2) rest]
      have "Separator p \<in> set (out st1) \<or> reached self rel p" .
      with below Inr show ?thesis by (auto simp: state_of_def)
    qed
  qed
qed

lemma output_of_walk:
  "output_of (build_context self timestamp tree) = st \<Longrightarrow>
   out st = out (state_of (walk self (root_dir self @ [output_name timestamp]) (root_dir self)
      tree \<lparr>out = [], console = []\<rparr>))"
  by (auto simp: build_context_def output_of_def state_of_def Let_def simp del: walk.simps
      split: sum.splits)

lemma build_context_reached:
  assumes "Separator p \<in> set (out (output_of (build_context self timestamp tree)))"
  shows "reached self [] p"
proof -
  from assms output_of_walk [OF refl, of self timestamp tree]
  have "Separator p \<in> set (out (state_of (walk self (root_dir self @ [output_name timestamp])
      (root_dir self) tree \<lparr>out = [], console = []\<rparr>)))"
    by simp
  from walk_out [OF this, of "[]"] show ?thesis by simp
qed

lemma pruned_subtree_absent:
  assumes "should_ignore self (root_dir self @ e) True = Inr True"
    and "e \<noteq> []" and "q \<noteq> []"
  shows "Separator (e @ q) \<notin> set (out (output_of (build_context self timestamp tree)))"
proof
  assume "Separator (e @ q) \<in> set (out (output_of (build_context self timestamp tree)))"
  then have "reached self [] (e @ q)" by (rule build_context_reached)
  then have "should_ignore self (root_dir self @ take (length e) (e @ q)) True = Inr False"
    using assms(2,3) by (auto simp: reached_def)
  with assms(1) show False by simp
qed

lemma glob_self: "CHR ''['' \<notin> set p \<Longrightarrow> glob_match (translate p) p"
proof (induction p)
  case Nil
  show ?case by simp
next
  case (Cons c r)
  then have "glob_match (translate r) r" by simp
  with glob_star_skip [of "translate r" r "[]"] Cons.prems show ?case by auto
qed

lemma str_path_slash: "str_path (d @ [n]) @ ''/'' = str_path (d @ [n @ ''/''])"
  by (simp add: str_path_snoc)

lemma no_bracket_matches_itself: "CHR ''['' \<notin> set p \<Longrightarrow> fnmatch p p"
  by (simp add: fnmatch_def glob_self)

lemma check_directory_pattern:
  assumes "\<not> startswith_bang foo" and "fnmatch (foo @ ''/'') (foo @ ''/'')"
  shows "check (foo @ ''/'') (str_path (d @ [foo])) (str_path (d @ [foo]) @ ''/'') = Some True"
proof -
  have nb: "\<not> startswith_bang (foo @ ''/'')"
    using assms(1) by (cases foo) (auto simp: startswith_bang_def)
  have es: "endswith_slash (foo @ ''/'')"
    by (simp add: endswith_slash_def)
  from fnmatch_name_in_dir [OF assms(2), of d] show ?thesis
    unfolding str_path_slash by (auto simp: check_def nb es pattern_variations_def)
qed

lemma files_at_root: "files_at es [] = []"
  by (induction es "[] :: path" rule: files_at.induct) auto

lemma files_of_at: "(n, e) \<in> set (files_of es) \<Longrightarrow> entry_data e \<in> set (files_at es [n])"
proof (induction es)
  case Nil
  then show ?case by (simp add: files_of_def)
next
  case (Cons a es)
  then show ?case by (cases a) (auto simp: files_of_def)
qed

lemma dirs_of_at:
  "(n, e) \<in> set (dirs_of es) \<Longrightarrow> \<not> entry_islink e \<Longrightarrow> q \<noteq> [] \<Longrightarrow>
   f \<in> set (files_at (entry_children e) q) \<Longrightarrow> f \<in> set (files_at es (n # q))"
proof (induction es)
  case Nil
  then show ?case by (simp add: dirs_of_def)
next
  case (Cons a es)
  then show ?case by (cases a) (auto simp: dirs_of_def)
qed

lemma walk_text:
  "Separator p \<in> set (out (state_of (walk self outf root es st))) \<Longrightarrow>
   root = root_dir self @ rel \<Longrightarrow>
   Separator p \<in> set (out st) \<or> (\<exists>q. p = rel @ q \<and> text_file_at es q)"
  and descend_text:
  "Separator p \<in> set (out (state_of (descend self outf root dirs st))) \<Longrightarrow>
   root = root_dir self @ rel \<Longrightarrow>
   Separator p \<in> set (out st) \<or>
   (\<exists>d\<in>set dirs. \<exists>q. \<not> entry_islink (snd d) \<and> q \<noteq> [] \<and> p = rel @ fst d # q \<and>
       text_file_at (entry_children (snd d)) q)"
proof (induction self outf root es st and self outf root dirs st arbitrary: rel and rel
    rule: walk_descend.induct)
  case (1 self output_file root es st)
  have files: "Separator p \<in> set (out st) \<or> (\<exists>q. p = rel @ q \<and> text_file_at es q)"
    if "Separator p \<in> set (out (state_of
          (process_files self root (keep_files output_file (files_of es)) st)))"
  proof -
    from process_files_out [of p self rel _ st] that "1.prems"(2)
    consider "Separator p \<in> set (out st)"
      | g where "g \<in> set (keep_files output_file (files_of es))" "p = rel @ [fst g]"
          "\<not> is_binary (entry_data (snd g))"
      by blast
    then show ?thesis
    proof cases
      case 1
      then show ?thesis by simp
    next
      case 2
      then have "(fst g, snd g) \<in> set (files_of es)" by (simp add: keep_files_def)
      then have "entry_data (snd g) \<in> set (files_at es [fst g])" by (rule files_of_at)
      with 2 have "text_file_at es [fst g]" by (auto simp: text_file_at_def)
      with 2 show ?thesis by blast
    qed
  qed
  show ?case
  proof (cases "prune self root (dirs_of es)")
    case (Inl e)
    with "1.prems"(1) show ?thesis by (simp add: state_of_def)
  next
    case (Inr kept)
    note k = this
    show ?thesis
    proof (cases "process_files self root (keep_files output_file (files_of es)) st")
      case (Inl x)
      with k "1.prems"(1) files show ?thesis by (simp add: state_of_def)
    next
      case (Inr st1)
      with k "1.prems"(1)
      have d: "Separator p \<in> set (out (state_of (descend self output_file root kept st1)))"
        by simp
      from "1.IH" [OF refl k Inr d "1.prems"(2)]
      consider "Separator p \<in> set (out st1)"
        | d q where "d \<in> set kept" "\<not> entry_islink (snd d)" "q \<noteq> []" "p = rel @ fst d # q"
            "text_file_at (entry_children (snd d)) q"
        by blast
      then show ?thesis
      proof cases
        case 1
        with files Inr show ?thesis by (simp add: state_of_def)
      next
        case 2
        from 2(1) prune_subset [OF k] have "(fst d, snd d) \<in> set (dirs_of es)" by auto
        with 2 have "text_file_at es (fst d # q)"
          using dirs_of_at [of "fst d" "snd d" es q] by (auto simp: text_file_at_def)
        with 2 show ?thesis by auto
      qed
    qed
  qed
next
  case (2 self output_file root st)
  then show ?case by (simp add: state_of_def)
next
  case (3 self output_file root d dirs st)
  show ?case
  proof (cases "entry_islink (snd d)")
    case True
    with "3.prems"(1)
    have "Separator p \<in> set (out (state_of (descend self output_file root dirs st)))" by simp
    from "3.IH"(1) [OF True this "3.prems"(2)] show ?thesis by auto
  next
    case False
    have root': "root @ [fst d] = root_dir self @ (rel @ [fst d])"
      using "3.prems"(2) by simp
    have below: "Separator p \<in> set (out st) \<or>
        (\<exists>q. q \<noteq> [] \<and> p = rel @ fst d # q \<and> text_file_at (entry_children (snd d)) q)"
      if "Separator p \<in> set (out (state_of
            (walk self output_file (root @ [fst d]) (entry_children (snd d)) st)))"
    proof -
      from "3.IH"(2) [OF False that root']
      consider "Separator p \<in> set (out st)"
        | q where "p = (rel @ [fst d]) @ q" "text_file_at (entry_children (snd d)) q"
        by blast
      then show ?thesis
      proof cases
        case 1
        then show ?thesis by simp
      next
        case 2
        from 2(2) have "q \<noteq> []"
          by (auto simp: text_file_at_def files_at_root)
        with 2 show ?thesis by auto
      qed
    qed
    show ?thesis
    proof (cases "walk self output_file (root @ [fst d]) (entry_children (snd d)) st")
      case (Inl x)
      with False "3.prems"(1) below show ?thesis by (auto simp: state_of_def)
    next
      case (Inr st1)
      with False "3.prems"(1)
      have "Separator p \<in> set (out (state_of (descend self output_file root dirs st1)))"
        by simp
      from "3.IH"(3) [OF False Inr this "3.prems"(2)]
      consider "Separator p \<in> set (out st1)"
        | e q where "e \<in> set dirs" "\<not> entry_islink (snd e)" "q \<noteq> []" "p = rel @ fst e # q"
            "text_file_at (entry_children (snd e)) q"
        by blast
      then show ?thesis
      proof cases
        case 1
        with below Inr False show ?thesis by (auto simp: state_of_def)
      next
        case 2
        then show ?thesis by auto
      qed
    qed
  qed
qed

lemma is_binary_iff:
  "is_binary f \<longleftrightarrow>
     (\<exists>e. raw f = Inl e) \<or>
     (\<exists>bytes i. raw f = Inr bytes \<and> i < 1024 \<and> i < length bytes \<and> bytes ! i = 0)"
proof (cases "raw f")
  case (Inl e)
  then show ?thesis by (simp add: is_binary_def)
next
  case (Inr bytes)
  have "0 \<in> set (take 1024 bytes) \<longleftrightarrow> (\<exists>i. i < 1024 \<and> i < length bytes \<and> bytes ! i = 0)"
    by (auto simp: in_set_conv_nth)
  with Inr show ?thesis by (simp add: is_binary_def)
qed

lemma build_context_text:
  assumes "Separator p \<in> set (out (output_of (build_context self timestamp tree)))"
  shows "text_file_at tree p"
proof -
  from assms output_of_walk [OF refl, of self timestamp tree]
  have "Separator p \<in> set (out (state_of (walk self (root_dir self @ [output_name timestamp])
      (root_dir self) tree \<lparr>out = [], console = []\<rparr>)))"
    by simp
  from walk_text [OF this, of "[]"] show ?thesis by simp
qed

lemma scenario_run:
  "build_context (init [''r''] ''.contextignore'' (Some [''sub/''])) ''20240101_000000'' scenario_tree
   = Inr ([''r'', ''contextro_context_20240101_000000.txt''],
          \<lparr>out = [Separator [''a.txt''], Contents ''hello''],
           console = [Context_file_created [''r'', ''contextro_context_20240101_000000.txt'']]\<rparr>)"
  by code_simp

lemma scenario_artifact:
  "artifact (output_of (build_context (init [''r''] ''.contextignore'' (Some [''sub/'']))
       ''20240101_000000'' scenario_tree))
   = [CHR 0x0A] @ ''=======a.txt======='' @ [CHR 0x0A] @ ''hello''"
  by code_simp

lemma escaping_link_ends_run:
  "main [''r''] ''.contextignore'' None ''20240101_000000''
     (scenario_tree @
      [Link ''away'' \<lparr>resolved = Inr [''elsewhere''], to_dir = True,
                      target = \<lparr>raw = Inl OSError, as_text = Inl OSError\<rparr>\<rparr>])
   = (1, None) \<and>
   build_context (init [''r''] ''.contextignore'' None) ''20240101_000000''
     [File ''a.txt'' \<lparr>raw = Inr [0x68, 0x69], as_text = Inr ''hi''\<rparr>,
      Link ''z.txt'' \<lparr>resolved = Inr [''elsewhere'', ''z.txt''], to_dir = False,
                      target = \<lparr>raw = Inr [0x7A], as_text = Inr ''z''\<rparr>\<rparr>]
   = Inl (ValueError, \<lparr>out = [Separator [''a.txt''], Contents ''hi''], console = []\<rparr>)"
  by code_simp

section \<open>The claims\<close>



text \<open>
  C2. The negation branch of \<open>Contextro._should_ignore\<close> runs its loop over the three
  variations and tests \<open>clean_pattern\<close> each time. With the patterns \<open>!b.txt\<close>, \<open>*.txt\<close>
  the path \<open>a/b.txt\<close> matches the expansion \<open>**/b.txt\<close> of the stripped pattern, and the
  answer is ignore all the same.
\<close>

theorem negation_expansions_untested:
  "fnmatch ''a/b.txt'' (''**/'' @ tl ''!b.txt'') \<and>
   should_ignore (init [''r''] ''.contextignore'' (Some [''!b.txt'', ''*.txt'']))
     [''r'', ''a'', ''b.txt''] False = Inr True"
  by code_simp




text \<open>
  C4. Let the ignore file hold the pattern \<open>foo/\<close>, where \<open>foo\<close> does not begin with \<open>!\<close>
  and the pattern matches its own text as a glob (as it does when \<open>foo\<close> has no \<open>[\<close>), and
  take a directory named \<open>foo\<close> under the root that is not a symbolic link. If the first
  pattern of the list whose turn of the loop returns for the directory is not a negation,
  \<open>Contextro._should_ignore\<close> answers ignore for it, and the output holds no separator
  for a path beneath it, whether the run ends normally or by an error.
\<close>

theorem directory_pattern_prunes:
  assumes "foo @ ''/'' \<in> set (ignore_patterns self)"
    and "\<not> startswith_bang foo" and "fnmatch (foo @ ''/'') (foo @ ''/'')"
    and "case deciding_pattern (ignore_patterns self) (str_path (d @ [foo]))
                (str_path (d @ [foo]) @ ''/'') of
           None \<Rightarrow> True
         | Some p \<Rightarrow> \<not> startswith_bang p"
  shows "should_ignore_at self (root_dir self @ d @ [foo]) (Dir foo es) = Inr True \<and>
         (\<forall>q. q \<noteq> [] \<longrightarrow>
            Separator (d @ [foo] @ q) \<notin> set (out (output_of (build_context self timestamp tree))))"
proof -
  let ?rel = "str_path (d @ [foo])"
  have "check (foo @ ''/'') ?rel (?rel @ ''/'') \<noteq> None"
    using check_directory_pattern [OF assms(2,3), of d] by simp
  with assms(1) have "deciding_pattern (ignore_patterns self) ?rel (?rel @ ''/'') \<noteq> None"
    by (rule deciding_exists)
  with assms(4) have "loop (ignore_patterns self) ?rel (?rel @ ''/'')"
    by (auto simp: loop_deciding)
  then have ig: "should_ignore self (root_dir self @ d @ [foo]) True = Inr True"
    using should_ignore_under_root [of self "d @ [foo]" True] by simp
  then have "should_ignore_at self (root_dir self @ d @ [foo]) (Dir foo es) = Inr True"
    by (simp add: should_ignore_at_def)
  moreover have "Separator (d @ [foo] @ q)
      \<notin> set (out (output_of (build_context self timestamp tree)))" if "q \<noteq> []" for q
    using pruned_subtree_absent [of self "d @ [foo]" q] ig that by simp
  ultimately show ?thesis by blast
qed

theorem directory_pattern_prunes_witness:
  "should_ignore_at (init [''r''] ''.contextignore'' (Some [''!*.md'', ''sub/'']))
     ([''r''] @ [] @ [''sub''])
     (Dir ''sub'' [File ''c.txt'' \<lparr>raw = Inr [0x77, 0x6F, 0x72, 0x6C, 0x64], as_text = Inr ''world''\<rparr>])
     = Inr True \<and>
   Separator ([] @ [''sub''] @ [''c.txt'']) \<notin> set (out (output_of
     (build_context (init [''r''] ''.contextignore'' (Some [''!*.md'', ''sub/'']))
        ''20240101_000000'' linked_tree)))"
proof -
  let ?self = "init [''r''] ''.contextignore'' (Some [''!*.md'', ''sub/''])"
  have p: "''sub'' @ ''/'' \<in> set (ignore_patterns ?self)"
    by code_simp
  have nb: "\<not> startswith_bang ''sub''" and br: "fnmatch (''sub'' @ ''/'') (''sub'' @ ''/'')"
    by code_simp+
  have dp: "case deciding_pattern (ignore_patterns ?self) (str_path ([] @ [''sub'']))
                (str_path ([] @ [''sub'']) @ ''/'') of
           None \<Rightarrow> True
         | Some p \<Rightarrow> \<not> startswith_bang p"
    by code_simp
  have r: "root_dir ?self = [''r'']" by (simp add: init_def)
  from directory_pattern_prunes [OF p nb br dp, of _ "''20240101_000000''" linked_tree]
  show ?thesis unfolding r by blast
qed

theorem earlier_negation_keeps_directory:
  "should_ignore_at (init [''r''] ''.contextignore'' (Some [''!foo'', ''foo/''])) [''r'', ''foo'']
     (Dir ''foo'' [File ''x.txt'' \<lparr>raw = Inr [0x78], as_text = Inr ''x''\<rparr>])
     = Inr False \<and>
   build_context (init [''r''] ''.contextignore'' (Some [''!foo'', ''foo/''])) ''20240101_000000''
     [Dir ''foo'' [File ''x.txt'' \<lparr>raw = Inr [0x78], as_text = Inr ''x''\<rparr>]]
   = Inr ([''r'', ''contextro_context_20240101_000000.txt''],
          \<lparr>out = [Separator [''foo'', ''x.txt''], Contents ''x''],
           console = [Context_file_created [''r'', ''contextro_context_20240101_000000.txt'']]\<rparr>) \<and>
   should_ignore_at (init [''r''] ''.contextignore'' (Some [''[a]/''])) [''r'', ''[a]'']
     (Dir ''[a]'' []) = Inr False \<and>
   should_ignore_at (init [''r''] ''.contextignore'' (Some [''!x/''])) [''r'', ''!x'']
     (Dir ''!x'' []) = Inr False \<and>
   should_ignore_at (init [''r''] ''.contextignore'' (Some [''foo/''])) [''r'', ''foo'']
     (Link ''foo'' \<lparr>resolved = Inr [''r'', ''sub''], to_dir = True,
                   target = \<lparr>raw = Inl OSError, as_text = Inl OSError\<rparr>\<rparr>) = Inr False"
  by code_simp

text \<open>
  C5. \<open>_is_binary\<close> answers binary exactly when the file cannot be opened or read, or a
  null byte stands among its first 1024 bytes. When every file at a path of the tree is
  binary, the output holds no separator for that path, whether the run ends normally or
  by an error.
\<close>

theorem binary_files_skipped:
  "(is_binary f \<longleftrightarrow>
      (\<exists>e. raw f = Inl e) \<or>
      (\<exists>bytes i. raw f = Inr bytes \<and> i < 1024 \<and> i < length bytes \<and> bytes ! i = 0)) \<and>
   ((\<forall>g\<in>set (files_at tree p). is_binary g) \<longrightarrow>
      Separator p \<notin> set (out (output_of (build_context self timestamp tree))))"
proof (rule conjI)
  show "is_binary f \<longleftrightarrow>
      (\<exists>e. raw f = Inl e) \<or>
      (\<exists>bytes i. raw f = Inr bytes \<and> i < 1024 \<and> i < length bytes \<and> bytes ! i = 0)"
    by (rule is_binary_iff)
next
  show "(\<forall>g\<in>set (files_at tree p). is_binary g) \<longrightarrow>
      Separator p \<notin> set (out (output_of (build_context self timestamp tree)))"
  proof
    assume bin: "\<forall>g\<in>set (files_at tree p). is_binary g"
    show "Separator p \<notin> set (out (output_of (build_context self timestamp tree)))"
    proof
      assume "Separator p \<in> set (out (output_of (build_context self timestamp tree)))"
      then have "text_file_at tree p" by (rule build_context_text)
      with bin show False by (auto simp: text_file_at_def)
    qed
  qed
qed

theorem binary_files_skipped_witness:
  "is_binary \<lparr>raw = Inr [0x62, 0x00], as_text = Inr [CHR ''b'', CHR 0x00]\<rparr> \<and>
   Separator [''b.bin''] \<notin> set (out (output_of
     (build_context (init [''r''] ''.contextignore'' None) ''20240101_000000'' linked_tree)))"
proof -
  have h: "\<forall>g\<in>set (files_at linked_tree [''b.bin'']). is_binary g"
    by code_simp
  have e: "\<exists>bytes i. raw \<lparr>raw = Inr [0x62, 0x00 :: byte], as_text = Inr [CHR ''b'', CHR 0x00]\<rparr> = Inr bytes \<and>
      i < 1024 \<and> i < length bytes \<and> bytes ! i = 0"
    by (intro exI [of _ "[0x62, 0x00]"] exI [of _ 1]) simp
  from binary_files_skipped
    [of "\<lparr>raw = Inr [0x62, 0x00], as_text = Inr [CHR ''b'', CHR 0x00]\<rparr>" linked_tree "[''b.bin'']"
      "init [''r''] ''.contextignore'' None" "''20240101_000000''"] h e
  show ?thesis by blast
qed

text \<open>
  C6. A file whose text cannot be decoded: the error is caught and printed with the path,
  and the walk goes on with the next file, but the separator of the failed file has been
  written already.
\<close>

theorem failed_read_leaves_separator:
  "build_context (init [''r''] ''.contextignore'' None) ''20240101_000000''
     [File ''bad.txt'' \<lparr>raw = Inr [0xFF], as_text = Inl UnicodeDecodeError\<rparr>,
      File ''next.txt'' \<lparr>raw = Inr [0x68, 0x69], as_text = Inr ''hi''\<rparr>]
   = Inr ([''r'', ''contextro_context_20240101_000000.txt''],
          \<lparr>out = [Separator [''bad.txt''], Separator [''next.txt''], Contents ''hi''],
           console = [Error_processing [''r'', ''bad.txt''] UnicodeDecodeError,
                      Context_file_created [''r'', ''contextro_context_20240101_000000.txt'']]\<rparr>)"
  by code_simp

text \<open>
  C7. A file name is a \<open>str\<close> and \<open>output_file\<close> a \<open>Path\<close>, so \<open>f != output_file\<close> holds
  for every name: the filter only drops the name \<open>.contextignore\<close>, and it keeps the name
  of the output artifact, in \<open>Contextro\<close> and in \<open>ContextBuilder\<close>.
\<close>

theorem output_filter_rejects_nothing:
  "py_ne (Str f) (PathObj output_file) \<and>
   keep_file output_file f = (f \<noteq> ''.contextignore'') \<and>
   keep_files output_file files = [g \<leftarrow> files. fst g \<noteq> ''.contextignore''] \<and>
   keep_file (root @ [output_name timestamp]) (output_name timestamp) \<and>
   keep_file (root @ [''context_'' @ timestamp @ ''.txt'']) (''context_'' @ timestamp @ ''.txt'')"
  by (simp add: py_ne_def keep_file_def keep_files_def output_name_def)

text \<open>
  C8. The simpler variant is not contained in the richer one. Let \<open>p\<close> be the pattern
  that decides in \<open>ContextBuilder._should_ignore\<close> (no pattern before it returns), and let
  the list of the richer variant be the same list with any patterns appended. If \<open>p\<close>
  makes the simpler variant ignore, and the path is a directory or \<open>p\<close> is not a
  directory-only pattern, then \<open>Contextro._should_ignore\<close> ignores too. If \<open>p\<close> is a
  negation that makes the simpler variant keep, the richer variant keeps exactly when no
  pattern before \<open>p\<close> matches under its expansions.
\<close>

theorem richer_extends_simpler:
  assumes "root_dir b = root_dir a" and "ignore_patterns b = ignore_patterns a @ extra"
    and "ignore_patterns a = pre @ p # post"
    and "\<forall>q\<in>set pre. cb_check q (str_path rel) = None"
  shows "(cb_check p (str_path rel) = Some True \<and> (isdir \<or> \<not> endswith_slash p) \<longrightarrow>
            cb_should_ignore a (root_dir a @ rel) = Inr True \<and>
            should_ignore b (root_dir a @ rel) isdir = Inr True) \<and>
         (cb_check p (str_path rel) = Some False \<longrightarrow>
            cb_should_ignore a (root_dir a @ rel) = Inr False \<and>
            ((should_ignore b (root_dir a @ rel) isdir = Inr False) =
             (\<forall>q\<in>set pre. check q (str_path rel)
                (if isdir then str_path rel @ ''/'' else str_path rel) = None)))"
proof (rule conjI; rule impI)
  let ?rel = "str_path rel"
  let ?rws = "if isdir then str_path rel @ ''/'' else str_path rel"
  have pre: "\<forall>q\<in>set pre. check q ?rel ?rws \<noteq> Some False"
    using assms(4) check_of_cb_none by blast
  have rich: "should_ignore b (root_dir a @ rel) isdir = Inr (loop (pre @ p # post @ extra) ?rel ?rws)"
    using should_ignore_under_root [of b rel isdir] assms(1,2,3) by simp
  {
    assume h: "cb_check p ?rel = Some True \<and> (isdir \<or> \<not> endswith_slash p)"
    then have "check p ?rel ?rws = Some True"
      using check_of_cb_ignore [of p ?rel isdir] by auto
    with pre have "loop (pre @ p # post @ extra) ?rel ?rws"
      by (rule loop_ignore_after)
    moreover have "cb_loop (pre @ p # post) ?rel"
      using cb_loop_first_hit [OF assms(4), of p True post] h by simp
    ultimately show "cb_should_ignore a (root_dir a @ rel) = Inr True \<and>
        should_ignore b (root_dir a @ rel) isdir = Inr True"
      using rich assms(3) by (simp add: cb_should_ignore_under_root)
  next
    assume h: "cb_check p ?rel = Some False"
    then have hit: "check p ?rel ?rws = Some False"
      by (simp add: cb_check_keep check_neg_of_cb)
    have cb: "\<not> cb_loop (pre @ p # post) ?rel"
      using cb_loop_first_hit [OF assms(4), of p False post] h by simp
    have "(\<not> loop (pre @ p # post @ extra) ?rel ?rws) = (\<forall>q\<in>set pre. check q ?rel ?rws = None)"
    proof
      assume "\<not> loop (pre @ p # post @ extra) ?rel ?rws"
      with pre show "\<forall>q\<in>set pre. check q ?rel ?rws = None"
        by (rule loop_keep_only_first)
    next
      assume "\<forall>q\<in>set pre. check q ?rel ?rws = None"
      from loop_first_hit [OF this hit] show "\<not> loop (pre @ p # post @ extra) ?rel ?rws"
        by simp
    qed
    with cb show "cb_should_ignore a (root_dir a @ rel) = Inr False \<and>
        ((should_ignore b (root_dir a @ rel) isdir = Inr False) =
         (\<forall>q\<in>set pre. check q ?rel ?rws = None))"
      using rich assms(3) by (simp add: cb_should_ignore_under_root)
  }
qed

theorem richer_extends_simpler_witness:
  "cb_should_ignore (cb_init [''r''] ''.contextignore'' (Some [''node_modules/'', ''*.log'']))
     ([''r''] @ [''x.log'']) = Inr True \<and>
   should_ignore (init [''r''] ''.contextignore'' (Some [''node_modules/'', ''*.log'']))
     ([''r''] @ [''x.log'']) False = Inr True \<and>
   cb_should_ignore (cb_init [''r''] ''.contextignore'' (Some [''*.log'', ''!keep.txt'', ''*.txt'']))
     ([''r''] @ [''keep.txt'']) = Inr False \<and>
   should_ignore (init [''r''] ''.contextignore'' (Some [''*.log'', ''!keep.txt'', ''*.txt'']))
     ([''r''] @ [''keep.txt'']) False = Inr False"
proof -
  let ?a1 = "cb_init [''r''] ''.contextignore'' (Some [''node_modules/'', ''*.log''])"
  let ?b1 = "init [''r''] ''.contextignore'' (Some [''node_modules/'', ''*.log''])"
  let ?a2 = "cb_init [''r''] ''.contextignore'' (Some [''*.log'', ''!keep.txt'', ''*.txt''])"
  let ?b2 = "init [''r''] ''.contextignore'' (Some [''*.log'', ''!keep.txt'', ''*.txt''])"
  have r1: "root_dir ?b1 = root_dir ?a1"
    and p1: "ignore_patterns ?b1 = ignore_patterns ?a1 @ [builtin_pattern]"
    by (simp_all add: init_def cb_init_def)
  have r2: "root_dir ?b2 = root_dir ?a2"
    and p2: "ignore_patterns ?b2 = ignore_patterns ?a2 @ [builtin_pattern]"
    by (simp_all add: init_def cb_init_def)
  have ra1: "root_dir ?a1 = [''r'']" and ra2: "root_dir ?a2 = [''r'']"
    by (simp_all add: cb_init_def)
  have s1: "ignore_patterns ?a1 = [''node_modules/''] @ ''*.log'' # []"
    and s2: "ignore_patterns ?a2 = [''*.log''] @ ''!keep.txt'' # [''*.txt'']"
    by code_simp+
  have n1: "\<forall>q\<in>set [''node_modules/'']. cb_check q (str_path [''x.log'']) = None"
    and n2: "\<forall>q\<in>set [''*.log'']. cb_check q (str_path [''keep.txt'']) = None"
    by code_simp+
  have h1: "cb_check ''*.log'' (str_path [''x.log'']) = Some True \<and>
      (False \<or> \<not> endswith_slash ''*.log'')"
    by code_simp
  have h2: "cb_check ''!keep.txt'' (str_path [''keep.txt'']) = Some False"
    by code_simp
  have k2: "\<forall>q\<in>set [''*.log'']. check q (str_path [''keep.txt''])
      (if False then str_path [''keep.txt''] @ ''/'' else str_path [''keep.txt'']) = None"
    by code_simp
  from richer_extends_simpler [OF r1 p1 s1 n1, of False, THEN conjunct1, rule_format, OF h1]
  have c1: "cb_should_ignore ?a1 ([''r''] @ [''x.log'']) = Inr True \<and>
      should_ignore ?b1 ([''r''] @ [''x.log'']) False = Inr True"
    by (simp only: ra1)
  from richer_extends_simpler [OF r2 p2 s2 n2, of False, THEN conjunct2, rule_format, OF h2] k2
  have c2: "cb_should_ignore ?a2 ([''r''] @ [''keep.txt'']) = Inr False \<and>
      should_ignore ?b2 ([''r''] @ [''keep.txt'']) False = Inr False"
    by (simp only: ra2)
  from c1 c2 show ?thesis by blast
qed

theorem directory_pattern_on_file:
  "cb_should_ignore (cb_init [''r''] ''.contextignore'' (Some [''foo/''])) [''r'', ''foo'']
     = Inr True \<and>
   should_ignore (init [''r''] ''.contextignore'' (Some [''foo/''])) [''r'', ''foo''] False
     = Inr False \<and>
   should_ignore \<lparr>root_dir = [''r''], ignore_file = [''r'', ''.contextignore''],
       ignore_patterns = [''foo/'']\<rparr> [''r'', ''foo''] False
     = Inr False \<and>
   cb_check ''b.txt'' ''a/b.txt'' = None \<and>
   cb_check ''!a/b.txt'' ''a/b.txt'' = Some False \<and>
   cb_should_ignore (cb_init [''r''] ''.contextignore'' (Some [''b.txt'', ''!a/b.txt'']))
     [''r'', ''a'', ''b.txt''] = Inr False \<and>
   should_ignore (init [''r''] ''.contextignore'' (Some [''b.txt'', ''!a/b.txt'']))
     [''r'', ''a'', ''b.txt''] False = Inr True \<and>
   should_ignore \<lparr>root_dir = [''r''], ignore_file = [''r'', ''.contextignore''],
       ignore_patterns = [''b.txt'', ''!a/b.txt'']\<rparr> [''r'', ''a'', ''b.txt''] False
     = Inr True"
  by code_simp

text \<open>
  C9. For a path that is not under the root directory the match operation of either
  class raises \<open>ValueError\<close>: \<open>relative_to\<close> is the first thing it does.
\<close>

theorem outside_root_raises:
  assumes "\<not> prefix (root_dir self) p"
  shows "should_ignore self p isdir = Inl ValueError \<and> cb_should_ignore self p = Inl ValueError"
  using assms by (simp add: should_ignore_def cb_should_ignore_def relative_to_outside)

theorem outside_root_raises_witness:
  "should_ignore (init [''home'', ''r''] ''.contextignore'' None) [''home'', ''q'', ''a.txt''] False
     = Inl ValueError \<and>
   cb_should_ignore (init [''home'', ''r''] ''.contextignore'' None) [''home'', ''q'', ''a.txt'']
     = Inl ValueError"
proof -
  have "\<not> prefix (root_dir (init [''home'', ''r''] ''.contextignore'' None))
      [''home'', ''q'', ''a.txt'']"
    by (simp add: init_def)
  then show ?thesis by (rule outside_root_raises)
qed

text \<open>
  C10. The filter of the file names compares with the literal \<open>.contextignore\<close>. With
  \<open>--ignore-file .myignore\<close> the file \<open>.myignore\<close> passes the filter and is written to
  the output.
\<close>

theorem overridden_ignore_file_emitted:
  "keep_file [''r'', output_name ''20240101_000000''] ''.myignore'' \<and>
   main [''r''] ''.myignore'' (Some [''*.log'']) ''20240101_000000''
     [File ''.myignore'' \<lparr>raw = Inr [0x2A, 0x2E, 0x6C, 0x6F, 0x67], as_text = Inr ''*.log''\<rparr>]
   = (0, Some ([''r'', ''contextro_context_20240101_000000.txt''],
          \<lparr>out = [Separator [''.myignore''], Contents ''*.log''],
           console = [Context_file_created [''r'', ''contextro_context_20240101_000000.txt'']]\<rparr>))"
  by code_simp

end
